theory Spec2Isabelle
  imports Complex_Main "HOL-Library.Word"
begin

unbundle bit_operations_syntax

section \<open>The sword puzzle firmware (WPLSwordPuzzle)\<close>

text \<open>
  The sketch drives a ring of \<open>NUM_LEDS\<close> addressable LEDs and a serial MP3 player from
  six active-low sensors. The model below follows the sketch statement by statement.

  Conventions of the embedding.
  \<^item> The target is an 8-bit AVR board: \<open>int\<close> has 16 bits and \<open>float\<close> is IEEE binary32.
    Values of type \<open>int\<close> are HOL integers; lemma \<open>run_state_ok\<close> shows that every value the
    program stores from power-on fits in 16 bits, so no signed overflow is ever reached.
  \<^item> \<open>byte\<close> / \<open>uint8_t\<close> values passed to the LED library are \<open>8 word\<close>; the implicit
    conversion from \<open>int\<close> is \<open>word_of_int\<close>.
  \<^item> The LED library (FastLED) and the MP3 driver are not part of the repository. A pixel
    (\<open>CRGB\<close>) is represented by the colours that were added to black since the buffer was
    last cleared, in the order of the \<open>+=\<close> statements; the MP3 player is represented by
    the list of \<open>playTrack\<close> requests it has received.
  \<^item> An access to \<open>leds\<close> outside \<open>0 .. NUM_LEDS - 1\<close> is undefined behaviour in the
    sketch; the model stops there with an error value.
\<close>

subsection \<open>Constants\<close>

definition NUM_LEDS :: int where
  "NUM_LEDS = 12"

definition numSensors :: nat where
  "numSensors = 6"

definition sensorPins :: "nat list" where
  "sensorPins = [2, 3, 4, 5, 6, 7]"

definition hues :: "int list" where
  "hues = [0, 24, 50, 90, 120, 160]"

definition lengths :: "int list" where
  "lengths = [2, 3, 4, 5, 6, 7]"

text \<open>\<open>int delta16 = 1\<close> is a global that no statement of the sketch assigns to.\<close>

definition delta16 :: int where
  "delta16 = 1"

subsection \<open>C arithmetic\<close>

text \<open>Integer division of C truncates towards zero (\<open>pos16 / 16\<close>).\<close>

definition c_div :: "int \<Rightarrow> int \<Rightarrow> int" where
  "c_div a b = sgn a * sgn b * (\<bar>a\<bar> div \<bar>b\<bar>)"

text \<open>
  \<open>brightness *= 0.8f\<close> converts the \<open>int\<close> to \<open>float\<close>, multiplies in binary32 and
  converts the product back to \<open>int\<close>, truncating towards zero. A finite binary32 value is
  represented here by the integer number of units of \<open>2 ^ -24\<close> it holds; the literal
  \<open>0.8f\<close> is \<open>13421773 * 2 ^ -24\<close> (bit pattern \<open>0x3F4CCCCD\<close>), and a 16-bit \<open>int\<close>
  converts exactly. \<open>round_sig24\<close> rounds to 24 significant bits, ties to even; the
  products that occur are far from the exponent limits of the format.
\<close>

fun bitlen :: "nat \<Rightarrow> nat" where
  "bitlen n = (if n = 0 then 0 else Suc (bitlen (n div 2)))"

definition round_sig24 :: "int \<Rightarrow> int" where
  "round_sig24 m =
     (let a = nat \<bar>m\<bar>;
          e = bitlen a - 24;
          q = a div 2 ^ e;
          r = a mod 2 ^ e;
          q' = (if 2 ^ e < 2 * r \<or> (2 * r = 2 ^ e \<and> odd q) then q + 1 else q)
      in sgn m * int (q' * 2 ^ e))"

definition float_0_8 :: int where
  "float_0_8 = 13421773"

definition float_to_int :: "int \<Rightarrow> int" where
  "float_to_int x = sgn x * (\<bar>x\<bar> div 2 ^ 24)"

definition mul_0_8f :: "int \<Rightarrow> int" where
  "mul_0_8f b = float_to_int (round_sig24 (b * float_0_8))"

text \<open>The two statements of the fade: \<open>brightness *= 0.8f; if(brightness<0) { brightness = 0; }\<close>.\<close>

definition fade :: "int \<Rightarrow> int" where
  "fade b = (let b1 = mul_0_8f b in if b1 < 0 then 0 else b1)"

subsection \<open>The light bar\<close>

datatype CHSV = CHSV (hsv_h: "8 word") (hsv_s: "8 word") (hsv_v: "8 word")

type_synonym CRGB = "CHSV list"

datatype error = OutOfBounds int

text \<open>
  The body of the \<open>for\<close> loop of \<open>drawLightbar\<close>: \<open>n\<close> is the loop counter, \<open>i\<close> the
  running pixel index. Each round executes one statement \<open>leds[i] += CHSV(hue, 255, bright)\<close>;
  the result lists these statements in the order of execution, as pairs of the index and
  the colour.
\<close>

function lightbar_slots :: "int \<Rightarrow> int \<Rightarrow> int \<Rightarrow> int \<Rightarrow> int \<Rightarrow> int \<Rightarrow> (int \<times> CHSV) list" where
  "lightbar_slots n i len h firstpixelbrightness lastpixelbrightness =
     (if n \<le> len then
        (let bright = (if n = 0 then firstpixelbrightness
                       else if n = len then lastpixelbrightness
                       else 255);
             i' = i + 1
         in (i, CHSV (word_of_int h) 255 (word_of_int bright))
            # lightbar_slots (n + 1) (if i' = NUM_LEDS then 0 else i') len h
                firstpixelbrightness lastpixelbrightness)
      else [])"
  by pat_completeness auto
termination
  by (relation "measure (\<lambda>(n, i, len, h, f, l). nat (len + 1 - n))") auto

text \<open>The statements that one call \<open>drawLightbar(pos16, length, hue)\<close> executes on \<open>leds\<close>.\<close>

definition drawLightbar_slots :: "int \<Rightarrow> int \<Rightarrow> int \<Rightarrow> (int \<times> CHSV) list" where
  "drawLightbar_slots p len h =
     (let i = c_div p 16;
          frac = p AND 0x0F;
          firstpixelbrightness = 255 - frac * 16;
          lastpixelbrightness = 255 - firstpixelbrightness
      in lightbar_slots 0 i len h firstpixelbrightness lastpixelbrightness)"

text \<open>Executing the statements on the array, in order; the first index out of range stops it.\<close>

fun paint :: "CRGB list \<Rightarrow> (int \<times> CHSV) list \<Rightarrow> error + CRGB list" where
  "paint buf [] = Inr buf"
| "paint buf ((i, c) # ws) =
     (if 0 \<le> i \<and> i < int (length buf)
      then paint (buf[nat i := buf ! nat i @ [c]]) ws
      else Inl (OutOfBounds i))"

definition drawLightbar :: "CRGB list \<Rightarrow> int \<Rightarrow> int \<Rightarrow> int \<Rightarrow> error + CRGB list" where
  "drawLightbar buf p len h = paint buf (drawLightbar_slots p len h)"

subsection \<open>The frame loop\<close>

datatype level = LOW | HIGH

record state =
  leds :: "CRGB list"
  pos16 :: int
  hue :: int
  brightness :: int
  length' :: int
  wasOverSensor :: bool
  fastled_brightness :: "8 word"
  mp3 :: "nat list"

text \<open>
  The globals after \<open>setup()\<close>: the declared initial values, the strip brightness 128
  and no track requested yet.
\<close>

definition initial :: state where
  "initial = \<lparr> leds = replicate (nat NUM_LEDS) [], pos16 = 0, hue = 20, brightness = 0,
               length' = 1, wasOverSensor = False, fastled_brightness = 128, mp3 = [] \<rparr>"

text \<open>
  One round of the sensor loop for sensor \<open>i\<close>; the flag \<open>isOverSensor\<close> is carried next to
  the globals. \<open>digitalRead\<close> gives the level of each pin during the frame.
\<close>

definition sensor_step :: "(nat \<Rightarrow> level) \<Rightarrow> state \<times> bool \<Rightarrow> nat \<Rightarrow> state \<times> bool" where
  "sensor_step digitalRead sb i =
     (if digitalRead (sensorPins ! i) = LOW
      then ((fst sb)\<lparr> length' := lengths ! i, hue := hues ! i \<rparr>, True)
      else sb)"

definition read_sensors :: "(nat \<Rightarrow> level) \<Rightarrow> state \<Rightarrow> state \<times> bool" where
  "read_sensors digitalRead s = foldl (sensor_step digitalRead) (s, False) [0..<numSensors]"

text \<open>The edge test, the cue and the fade, up to the update of \<open>wasOverSensor\<close>.\<close>

definition update_bar :: "state \<Rightarrow> bool \<Rightarrow> state" where
  "update_bar s isOverSensor =
     (let s1 = (if isOverSensor then
                  (let s0 = (if \<not> wasOverSensor s
                             then s\<lparr> pos16 := 0, mp3 := mp3 s @ [1] \<rparr>
                             else s)
                   in s0\<lparr> brightness := 255 \<rparr>)
                else s\<lparr> brightness := fade (brightness s) \<rparr>);
          s2 = s1\<lparr> fastled_brightness := word_of_int (brightness s1) \<rparr>
      in s2\<lparr> wasOverSensor := isOverSensor \<rparr>)"

text \<open>Advancing the position and wrapping at the end of the strip.\<close>

definition advance :: "state \<Rightarrow> state" where
  "advance s =
     (let p = pos16 s + delta16
      in s\<lparr> pos16 := (if p \<ge> NUM_LEDS * 16 then p - NUM_LEDS * 16 else p) \<rparr>)"

text \<open>
  The first half of \<open>loop()\<close>, down to \<open>wasOverSensor = isOverSensor\<close>: the globals
  as they are when \<open>drawLightbar\<close> is called.
\<close>

definition before_draw :: "(nat \<Rightarrow> level) \<Rightarrow> state \<Rightarrow> state" where
  "before_draw digitalRead s =
     (let (s1, isOverSensor) = read_sensors digitalRead s
      in update_bar s1 isOverSensor)"

text \<open>
  One call of \<open>loop()\<close>: the first half, clearing the pixel array, drawing the bar and
  advancing the position. \<open>FastLED.show()\<close> and \<open>delay(10)\<close> change none of the globals.
\<close>

definition loop :: "(nat \<Rightarrow> level) \<Rightarrow> state \<Rightarrow> error + state" where
  "loop digitalRead s =
     (let s2 = before_draw digitalRead s;
          cleared = replicate (nat NUM_LEDS) []
      in case drawLightbar cleared (pos16 s2) (length' s2) (hue s2) of
           Inl e \<Rightarrow> Inl e
         | Inr buf \<Rightarrow> Inr (advance (s2\<lparr> leds := buf \<rparr>)))"

text \<open>Consecutive frames, one sensor reading per frame.\<close>

fun run :: "(nat \<Rightarrow> level) list \<Rightarrow> state \<Rightarrow> error + state" where
  "run [] s = Inr s"
| "run (rd # rds) s = (case loop rd s of Inl e \<Rightarrow> Inl e | Inr s' \<Rightarrow> run rds s')"

subsection \<open>Vocabulary of the specification\<close>

text \<open>Sensor \<open>i\<close> is asserted when its pin reads \<open>LOW\<close>; a frame is active when some sensor is.\<close>

definition asserted :: "(nat \<Rightarrow> level) \<Rightarrow> nat \<Rightarrow> bool" where
  "asserted digitalRead i = (digitalRead (sensorPins ! i) = LOW)"

definition active :: "(nat \<Rightarrow> level) \<Rightarrow> bool" where
  "active digitalRead = list_ex (asserted digitalRead) [0..<numSensors]"

text \<open>The reading in which exactly the listed pins are \<open>LOW\<close>, and the idle reading.\<close>

definition pins_low :: "nat list \<Rightarrow> nat \<Rightarrow> level" where
  "pins_low ps p = (if p \<in> set ps then LOW else HIGH)"

definition no_sensor :: "nat \<Rightarrow> level" where
  "no_sensor p = HIGH"

text \<open>
  The number of false-to-true transitions in a sequence of samples, \<open>prev\<close> being the
  sample before the first one.
\<close>

fun rising_edges :: "bool \<Rightarrow> bool list \<Rightarrow> nat" where
  "rising_edges prev [] = 0"
| "rising_edges prev (a # as) = (if a \<and> \<not> prev then 1 else 0) + rising_edges a as"

text \<open>The position is inside the strip, in sixteenths of a pixel.\<close>

definition pos_ok :: "state \<Rightarrow> bool" where
  "pos_ok s = (0 \<le> pos16 s \<and> pos16 s < NUM_LEDS * 16)"

text \<open>
  The ranges of the data model: position inside the strip, brightness a byte, the bar
  shorter than the strip, the hue a byte.
\<close>

definition state_ok :: "state \<Rightarrow> bool" where
  "state_ok s = (pos_ok s \<and> 0 \<le> brightness s \<and> brightness s \<le> 255 \<and>
                 1 \<le> length' s \<and> length' s < NUM_LEDS \<and> 0 \<le> hue s \<and> hue s \<le> 255)"

text \<open>The closed form \<open>floor(255 * 0.8^n)\<close> of the specification for the fade.\<close>

definition fade_closed_form :: "nat \<Rightarrow> int" where
  "fade_closed_form n = \<lfloor>255 * (0.8 :: real) ^ n\<rfloor>"

text \<open>The brightness values that one call of \<open>drawLightbar\<close> paints, slot by slot.\<close>

definition painted_brightness :: "(int \<times> CHSV) list \<Rightarrow> int list" where
  "painted_brightness ws = map (\<lambda>w. uint (hsv_v (snd w))) ws"

declare lightbar_slots.simps [simp del]
declare bitlen.simps [simp del]

section \<open>Auxiliary facts\<close>

subsection \<open>Arithmetic of the target\<close>

lemma c_div_16_nonneg: "0 \<le> a \<Longrightarrow> c_div a 16 = a div 16"
  by (cases "a = 0") (simp_all add: c_div_def)

lemma and_15_mod: "(p::int) AND 0x0F = p mod 16"
proof -
  have "p AND mask 4 = take_bit 4 p"
    by (simp only: take_bit_eq_mask)
  then show ?thesis
    by (simp add: take_bit_eq_mod mask_eq_exp_minus_1)
qed

lemma bitlen_le: "a < 2 ^ k \<Longrightarrow> bitlen a \<le> k"
proof (induction k arbitrary: a)
  case 0
  then show ?case by (simp add: bitlen.simps)
next
  case (Suc k)
  then have "a div 2 < 2 ^ k" by simp
  then have "bitlen (a div 2) \<le> k" by (rule Suc.IH)
  then show ?case by (subst bitlen.simps) simp
qed

lemma round_sig24_between:
  assumes "0 \<le> m" and "nat m < 2 ^ (24 + d)"
  shows "\<exists>e q'. e \<le> d \<and> round_sig24 m = int (q' * 2 ^ e) \<and>
           nat m div 2 ^ e \<le> q' \<and> q' \<le> nat m div 2 ^ e + 1"
proof -
  define e where "e = bitlen (nat m) - 24"
  define q where "q = nat m div 2 ^ e"
  define r where "r = nat m mod 2 ^ e"
  define q' where "q' = (if 2 ^ e < 2 * r \<or> (2 * r = 2 ^ e \<and> odd q) then q + 1 else q)"
  have "bitlen (nat m) \<le> 24 + d" using assms(2) by (rule bitlen_le)
  then have "e \<le> d" by (simp add: e_def)
  moreover have "round_sig24 m = int (q' * 2 ^ e)"
  proof (cases "m = 0")
    case True
    then show ?thesis by (simp add: round_sig24_def q'_def q_def r_def)
  next
    case False
    with assms(1) have "sgn m = 1" by simp
    then show ?thesis
      by (simp add: round_sig24_def Let_def e_def q_def r_def q'_def assms(1))
  qed
  moreover have "q \<le> q'" "q' \<le> q + 1" by (simp_all add: q'_def)
  ultimately show ?thesis unfolding q_def by blast
qed

lemma mul_0_8f_eq:
  assumes "0 \<le> b" and "b < 32768"
  shows "mul_0_8f b = b * 4 div 5"
proof -
  define m where "m = b * float_0_8"
  define k where "k = b * 4 div 5"
  have m0: "0 \<le> m" using assms by (simp add: m_def float_0_8_def)
  have k0: "0 \<le> k" using assms by (simp add: k_def)
  have k1: "5 * k \<le> 4 * b" "4 * b \<le> 5 * k + 4" unfolding k_def by linarith+ 
  have lo: "k * 2 ^ 24 \<le> m" using k1 assms by (simp add: m_def float_0_8_def)
  have hi: "m + 2 ^ 15 < (k + 1) * 2 ^ 24" using k1 assms by (simp add: m_def float_0_8_def)
  have "m < 2 ^ 39" using assms by (simp add: m_def float_0_8_def)
  then have "nat m < 2 ^ (24 + 15)" using m0 by (simp add: nat_less_iff)
  from round_sig24_between [OF m0 this] obtain e q' where
    e: "e \<le> 15" and R: "round_sig24 m = int (q' * 2 ^ e)"
    and q1: "nat m div 2 ^ e \<le> q'" and q2: "q' \<le> nat m div 2 ^ e + 1" by blast
  define R where "R = round_sig24 m"
  have "nat k * 2 ^ (24 - e) * 2 ^ e = nat k * 2 ^ 24"
    using e by (simp add: mult.assoc flip: power_add)
  also have "\<dots> \<le> nat m" using lo k0 m0 by (simp add: nat_le_iff nat_mult_distrib)
  finally have "nat k * 2 ^ (24 - e) \<le> nat m div 2 ^ e"
    by (simp add: less_eq_div_iff_mult_less_eq)
  with q1 have "nat k * 2 ^ (24 - e) \<le> q'" by simp
  then have "nat k * 2 ^ (24 - e) * 2 ^ e \<le> q' * 2 ^ e" by simp
  then have "nat k * 2 ^ 24 \<le> q' * 2 ^ e"
    using e by (simp add: mult.assoc flip: power_add)
  then have "int (nat k * 2 ^ 24) \<le> int (q' * 2 ^ e)" by (simp only: of_nat_le_iff)
  then have Rlo: "k * 2 ^ 24 \<le> R" using k0 by (simp add: R_def R)
  have pe: "(2::nat) ^ e \<le> 2 ^ 15" using e by (intro power_increasing) simp_all
  have "q' * 2 ^ e \<le> (nat m div 2 ^ e + 1) * 2 ^ e" using q2 by (rule mult_le_mono1)
  also have "\<dots> = (nat m div 2 ^ e) * 2 ^ e + 2 ^ e" by (simp add: algebra_simps)
  also have "\<dots> \<le> nat m + 2 ^ e" by simp
  also have "\<dots> \<le> nat m + 2 ^ 15" using pe by (rule add_left_mono)
  finally have "int (q' * 2 ^ e) \<le> int (nat m + 2 ^ 15)" by (simp only: of_nat_le_iff)
  then have "R \<le> m + 2 ^ 15" using m0 by (simp add: R_def R)
  with hi have Rhi: "R < (k + 1) * 2 ^ 24" by simp
  have "0 \<le> k * 2 ^ 24" using k0 by simp
  then have R0: "0 \<le> R" using Rlo by (rule order_trans)
  have "R div 2 ^ 24 = k"
    using Rlo Rhi by (intro div_pos_pos_trivial [THEN trans] int_div_pos_eq [where r = "R - k * 2 ^ 24"]) simp_all
  moreover have "float_to_int R = R div 2 ^ 24"
    using R0 by (cases "R = 0") (simp_all add: float_to_int_def)
  ultimately show ?thesis
    by (simp add: mul_0_8f_def R_def m_def k_def)
qed

subsection \<open>The statements of the light bar\<close>

lemma length_lightbar_slots:
  "length (lightbar_slots n i len h f l) = nat (len + 1 - n)"
proof (induction n i len h f l rule: lightbar_slots.induct)
  case (1 n i len h f l)
  show ?case
  proof (cases "n \<le> len")
    case True
    have "length (lightbar_slots n i len h f l) =
          Suc (length (lightbar_slots (n + 1) (if i + 1 = NUM_LEDS then 0 else i + 1) len h f l))"
      using True by (subst lightbar_slots.simps) (simp add: Let_def)
    also have "\<dots> = Suc (nat (len + 1 - (n + 1)))"
      using True by (simp only: 1 [OF True refl refl])
    also have "\<dots> = nat (len + 1 - n)" using True by simp
    finally show ?thesis .
  next
    case False
    then show ?thesis
      by (subst lightbar_slots.simps) simp
  qed
qed

lemma lightbar_slots_nth:
  "0 \<le> i \<Longrightarrow> i < NUM_LEDS \<Longrightarrow> n + int k \<le> len \<Longrightarrow>
   lightbar_slots n i len h f l ! k =
     ((i + int k) mod NUM_LEDS,
      CHSV (word_of_int h) 255
        (word_of_int (if n + int k = 0 then f else if n + int k = len then l else 255)))"
proof (induction k arbitrary: n i)
  case 0
  then show ?case
    by (subst lightbar_slots.simps) (simp add: Let_def)
next
  case (Suc k)
  define j where "j = (if i + 1 = NUM_LEDS then 0 else i + 1)"
  have j: "0 \<le> j" "j < NUM_LEDS" using Suc.prems by (simp_all add: j_def)
  have le: "(n + 1) + int k \<le> len" using Suc.prems by simp
  have idx: "(j + int k) mod NUM_LEDS = (i + int (Suc k)) mod NUM_LEDS"
  proof (cases "i + 1 = NUM_LEDS")
    case True
    then have "i + int (Suc k) = int k + NUM_LEDS" by simp
    then have "(i + int (Suc k)) mod NUM_LEDS = int k mod NUM_LEDS" by (simp only: mod_add_self2)
    moreover have "j = 0" using True by (simp add: j_def)
    ultimately show ?thesis by simp
  next
    case False
    then show ?thesis by (simp add: j_def add.assoc)
  qed
  have n: "n + 1 + int k = n + int (Suc k)" by simp
  have "n \<le> len" using Suc.prems by simp
  then have "lightbar_slots n i len h f l ! Suc k = lightbar_slots (n + 1) j len h f l ! k"
    by (subst lightbar_slots.simps) (simp add: Let_def j_def)
  also have "\<dots> = ((j + int k) mod NUM_LEDS,
      CHSV (word_of_int h) 255
        (word_of_int (if (n + 1) + int k = 0 then f else if (n + 1) + int k = len then l else 255)))"
    by (rule Suc.IH [OF j le])
  finally show ?case
    by (simp only: idx n)
qed

lemma lightbar_slots_index:
  assumes "0 \<le> i" "i < NUM_LEDS" "w \<in> set (lightbar_slots n i len h f l)"
  shows "0 \<le> fst w \<and> fst w < NUM_LEDS"
proof -
  from assms(3) obtain k where k: "k < length (lightbar_slots n i len h f l)"
    and w: "w = lightbar_slots n i len h f l ! k"
    by (auto simp: in_set_conv_nth)
  from k have "n + int k \<le> len" by (simp add: length_lightbar_slots)
  with assms(1,2) have "fst w = (i + int k) mod NUM_LEDS"
    by (simp add: w lightbar_slots_nth)
  then show ?thesis by (simp add: NUM_LEDS_def)
qed

lemma paint_in_bounds:
  "\<forall>w\<in>set ws. 0 \<le> fst w \<and> fst w < int (length buf) \<Longrightarrow>
   \<exists>buf'. paint buf ws = Inr buf' \<and> length buf' = length buf"
proof (induction ws arbitrary: buf)
  case Nil
  then show ?case by simp
next
  case (Cons w ws)
  obtain i c where w: "w = (i, c)" by (cases w)
  have "\<forall>w\<in>set ws. 0 \<le> fst w \<and> fst w < int (length (buf[nat i := buf ! nat i @ [c]]))"
    using Cons.prems by simp
  from Cons.IH [OF this] show ?case using Cons.prems by (simp add: w)
qed

lemma uint_byte: "0 \<le> x \<Longrightarrow> x \<le> 255 \<Longrightarrow> uint (word_of_int x :: 8 word) = x"
  by (simp add: uint_word_of_int take_bit_eq_mod)

lemma painted_brightness_tail:
  "1 \<le> n \<Longrightarrow> n + int m = len \<Longrightarrow> 0 \<le> l \<Longrightarrow> l \<le> 255 \<Longrightarrow>
   painted_brightness (lightbar_slots n i len h f l) = replicate m 255 @ [l]"
proof (induction m arbitrary: n i)
  case 0
  then have "lightbar_slots n i len h f l =
      [(i, CHSV (word_of_int h) 255 (word_of_int l))]"
    by (subst lightbar_slots.simps, subst lightbar_slots.simps) (simp add: Let_def)
  with 0 show ?case by (simp add: painted_brightness_def uint_byte)
next
  case (Suc m)
  let ?j = "if i + 1 = NUM_LEDS then 0 else i + 1"
  have "lightbar_slots n i len h f l =
      (i, CHSV (word_of_int h) 255 (word_of_int 255)) # lightbar_slots (n + 1) ?j len h f l"
    using Suc.prems by (subst lightbar_slots.simps) (simp add: Let_def)
  moreover have "painted_brightness (lightbar_slots (n + 1) ?j len h f l) = replicate m 255 @ [l]"
    using Suc.prems by (intro Suc.IH) simp_all
  ultimately show ?case by (simp add: painted_brightness_def)
qed

lemma painted_brightness_bar:
  assumes "1 \<le> len" "0 \<le> f" "f \<le> 255" "0 \<le> l" "l \<le> 255"
  shows "painted_brightness (lightbar_slots 0 i len h f l) = f # replicate (nat (len - 1)) 255 @ [l]"
proof -
  let ?j = "if i + 1 = NUM_LEDS then 0 else i + 1"
  have "lightbar_slots 0 i len h f l =
      (i, CHSV (word_of_int h) 255 (word_of_int f)) # lightbar_slots (0 + 1) ?j len h f l"
    using assms(1) by (subst lightbar_slots.simps) (simp add: Let_def)
  moreover have "painted_brightness (lightbar_slots (0 + 1) ?j len h f l) =
      replicate (nat (len - 1)) 255 @ [l]"
    using assms by (intro painted_brightness_tail) simp_all
  ultimately show ?thesis using assms by (simp add: painted_brightness_def uint_byte)
qed

lemma frac_bounds: "0 \<le> 255 - (p mod 16) * 16" "255 - (p mod 16) * 16 \<le> 255"
  "0 \<le> 255 - (255 - (p mod 16) * 16)" "255 - (255 - (p mod 16) * 16) \<le> 255" for p :: int
proof -
  have "0 \<le> p mod 16" "p mod 16 < 16" by simp_all
  then show "0 \<le> 255 - (p mod 16) * 16" "255 - (p mod 16) * 16 \<le> 255"
    "0 \<le> 255 - (255 - (p mod 16) * 16)" "255 - (255 - (p mod 16) * 16) \<le> 255"
    by linarith+
qed

lemma pixel_of_pos:
  assumes "0 \<le> p" "p < NUM_LEDS * 16"
  shows "c_div p 16 = p div 16" "0 \<le> p div 16" "p div 16 < NUM_LEDS"
  using assms by (simp_all add: c_div_16_nonneg NUM_LEDS_def)

lemma drawLightbar_slots_nth:
  assumes "0 \<le> p" "p < NUM_LEDS * 16" "int k \<le> len"
  shows "drawLightbar_slots p len h ! k =
     ((p div 16 + int k) mod NUM_LEDS,
      CHSV (word_of_int h) 255
        (word_of_int (if k = 0 then 255 - (p mod 16) * 16
                      else if int k = len then 255 - (255 - (p mod 16) * 16) else 255)))"
  using assms pixel_of_pos [OF assms(1,2)]
  by (simp add: drawLightbar_slots_def Let_def and_15_mod lightbar_slots_nth)

lemma drawLightbar_slots_index:
  assumes "0 \<le> p" "p < NUM_LEDS * 16" "w \<in> set (drawLightbar_slots p len h)"
  shows "0 \<le> fst w \<and> fst w < NUM_LEDS"
  using assms(3) pixel_of_pos [OF assms(1,2)]
  by (auto simp: drawLightbar_slots_def Let_def dest: lightbar_slots_index [rotated 2])

lemma drawLightbar_ok:
  assumes "0 \<le> p" "p < NUM_LEDS * 16" "length buf = nat NUM_LEDS"
  shows "\<exists>buf'. drawLightbar buf p len h = Inr buf' \<and> length buf' = length buf"
proof -
  have "\<forall>w\<in>set (drawLightbar_slots p len h). 0 \<le> fst w \<and> fst w < int (length buf)"
    using drawLightbar_slots_index [OF assms(1,2)] assms(3) by (auto simp: NUM_LEDS_def)
  then show ?thesis unfolding drawLightbar_def by (rule paint_in_bounds)
qed

subsection \<open>One frame\<close>

lemma sensor_fold_flag:
  "snd (foldl (sensor_step rd) sb js) = (snd sb \<or> list_ex (asserted rd) js)"
  by (induction js arbitrary: sb) (auto simp: sensor_step_def asserted_def)

lemma sensor_fold_idle:
  "\<not> list_ex (asserted rd) js \<Longrightarrow> foldl (sensor_step rd) sb js = sb"
  by (induction js arbitrary: sb) (auto simp: sensor_step_def asserted_def)

lemma sensor_fold_frame:
  "\<exists>l h. fst (foldl (sensor_step rd) sb js) = (fst sb)\<lparr> length' := l, hue := h \<rparr>"
proof (induction js arbitrary: sb)
  case Nil
  have "fst sb = (fst sb)\<lparr> length' := length' (fst sb), hue := hue (fst sb) \<rparr>" by simp
  then show ?case by (simp only: foldl_Nil) blast
next
  case (Cons j js)
  from Cons.IH [of "sensor_step rd sb j"] obtain l h where
    "fst (foldl (sensor_step rd) (sensor_step rd sb j) js) =
       (fst (sensor_step rd sb j))\<lparr> length' := l, hue := h \<rparr>" by blast
  moreover have "(fst (sensor_step rd sb j))\<lparr> length' := l, hue := h \<rparr> =
       (fst sb)\<lparr> length' := l, hue := h \<rparr>"
    by (simp add: sensor_step_def)
  ultimately show ?case by (simp only: foldl_Cons) blast
qed

lemma sensor_fold_last:
  assumes "asserted rd i" "\<not> list_ex (asserted rd) js"
  shows "foldl (sensor_step rd) sb (ks @ i # js) =
     ((fst (foldl (sensor_step rd) sb ks))\<lparr> length' := lengths ! i, hue := hues ! i \<rparr>, True)"
  using assms by (simp add: sensor_fold_idle) (simp add: sensor_step_def asserted_def)

lemma read_sensors_flag: "snd (read_sensors rd s) = active rd"
  by (simp add: read_sensors_def active_def sensor_fold_flag)

lemma read_sensors_idle: "\<not> active rd \<Longrightarrow> read_sensors rd s = (s, False)"
  by (simp add: read_sensors_def active_def sensor_fold_idle)

lemma read_sensors_frame:
  "\<exists>l h. fst (read_sensors rd s) = s\<lparr> length' := l, hue := h \<rparr>"
  using sensor_fold_frame [of rd "(s, False)" "[0..<numSensors]"]
  by (simp add: read_sensors_def)

lemma read_sensors_highest:
  assumes "i < numSensors" "asserted rd i"
    and "\<forall>j. i < j \<and> j < numSensors \<longrightarrow> \<not> asserted rd j"
  shows "length' (fst (read_sensors rd s)) = lengths ! i \<and> hue (fst (read_sensors rd s)) = hues ! i"
proof -
  have "[0..<i + (numSensors - i)] = [0..<i] @ [i..<i + (numSensors - i)]"
    by (rule upt_add_eq_append) simp
  then have split: "[0..<numSensors] = [0..<i] @ i # [Suc i..<numSensors]"
    using assms(1) by (simp add: upt_conv_Cons)
  have "\<not> list_ex (asserted rd) [Suc i..<numSensors]"
    using assms(3) by (auto simp: list_ex_iff)
  with assms(2) have "foldl (sensor_step rd) (s, False) ([0..<i] @ i # [Suc i..<numSensors]) =
     ((fst (foldl (sensor_step rd) (s, False) [0..<i]))\<lparr> length' := lengths ! i, hue := hues ! i \<rparr>, True)"
    by (rule sensor_fold_last)
  then show ?thesis
    by (simp add: read_sensors_def flip: split)
qed

lemma before_draw_eq:
  "before_draw rd s = update_bar (fst (read_sensors rd s)) (active rd)"
  by (simp add: before_draw_def split_beta read_sensors_flag)

lemma before_draw_pos16:
  "pos16 (before_draw rd s) = (if active rd \<and> \<not> wasOverSensor s then 0 else pos16 s)"
  using read_sensors_frame [of rd s]
  by (auto simp: before_draw_eq update_bar_def Let_def)

lemma before_draw_mp3:
  "mp3 (before_draw rd s) = mp3 s @ (if active rd \<and> \<not> wasOverSensor s then [1] else [])"
  using read_sensors_frame [of rd s]
  by (auto simp: before_draw_eq update_bar_def Let_def)

lemma before_draw_brightness:
  "brightness (before_draw rd s) = (if active rd then 255 else fade (brightness s))"
  using read_sensors_frame [of rd s]
  by (auto simp: before_draw_eq update_bar_def Let_def)

lemma before_draw_wasOverSensor: "wasOverSensor (before_draw rd s) = active rd"
  by (simp add: before_draw_eq update_bar_def Let_def)

lemma before_draw_bar:
  "length' (before_draw rd s) = length' (fst (read_sensors rd s))"
  "hue (before_draw rd s) = hue (fst (read_sensors rd s))"
  by (simp_all add: before_draw_eq update_bar_def Let_def)

lemma advance_pos16:
  assumes "pos_ok s"
  shows "pos16 (advance s) = (pos16 s + 1) mod (NUM_LEDS * 16)"
proof (cases "pos16 s + 1 = NUM_LEDS * 16")
  case True
  then show ?thesis by (simp add: advance_def delta16_def Let_def)
next
  case False
  with assms have "0 \<le> pos16 s + 1" "pos16 s + 1 < NUM_LEDS * 16"
    by (simp_all add: pos_ok_def)
  then show ?thesis by (simp add: advance_def delta16_def Let_def)
qed

lemma advance_pos_ok: "pos_ok s \<Longrightarrow> pos_ok (advance s)"
  by (auto simp: advance_def pos_ok_def delta16_def NUM_LEDS_def Let_def)

lemma advance_fields:
  "brightness (advance s) = brightness s" "length' (advance s) = length' s"
  "hue (advance s) = hue s" "mp3 (advance s) = mp3 s"
  "wasOverSensor (advance s) = wasOverSensor s" "leds (advance s) = leds s"
  "fastled_brightness (advance s) = fastled_brightness s"
  by (simp_all add: advance_def Let_def)

lemma before_draw_pos_ok: "pos_ok s \<Longrightarrow> pos_ok (before_draw rd s)"
  by (simp add: pos_ok_def before_draw_pos16 NUM_LEDS_def)

lemma loop_Inr:
  assumes "pos_ok s"
  shows "\<exists>buf. drawLightbar (replicate (nat NUM_LEDS) []) (pos16 (before_draw rd s))
                 (length' (before_draw rd s)) (hue (before_draw rd s)) = Inr buf
             \<and> loop rd s = Inr (advance ((before_draw rd s)\<lparr> leds := buf \<rparr>))"
proof -
  have "pos_ok (before_draw rd s)" using assms by (rule before_draw_pos_ok)
  then have "0 \<le> pos16 (before_draw rd s)" "pos16 (before_draw rd s) < NUM_LEDS * 16"
    by (simp_all add: pos_ok_def)
  from drawLightbar_ok [OF this, of "replicate (nat NUM_LEDS) []"]
  obtain buf where "drawLightbar (replicate (nat NUM_LEDS) []) (pos16 (before_draw rd s))
                 (length' (before_draw rd s)) (hue (before_draw rd s)) = Inr buf"
    by auto
  then show ?thesis by (simp add: loop_def Let_def)
qed

lemma loop_fields:
  assumes "pos_ok s"
  shows "\<exists>s'. loop rd s = Inr s' \<and> pos_ok s'
    \<and> pos16 s' = (if active rd \<and> \<not> wasOverSensor s then 1 else (pos16 s + 1) mod (NUM_LEDS * 16))
    \<and> mp3 s' = mp3 s @ (if active rd \<and> \<not> wasOverSensor s then [1] else [])
    \<and> brightness s' = (if active rd then 255 else fade (brightness s))
    \<and> wasOverSensor s' = active rd
    \<and> length' s' = length' (fst (read_sensors rd s))
    \<and> hue s' = hue (fst (read_sensors rd s))"
proof -
  from loop_Inr [OF assms, of rd] obtain buf where
    l: "loop rd s = Inr (advance ((before_draw rd s)\<lparr> leds := buf \<rparr>))" by blast
  let ?s2 = "(before_draw rd s)\<lparr> leds := buf \<rparr>"
  have ok: "pos_ok ?s2"
    using before_draw_pos_ok [OF assms, of rd] by (simp add: pos_ok_def)
  have "pos16 (advance ?s2) = (pos16 ?s2 + 1) mod (NUM_LEDS * 16)"
    using ok by (rule advance_pos16)
  then have p: "pos16 (advance ?s2) =
      (if active rd \<and> \<not> wasOverSensor s then 1 else (pos16 s + 1) mod (NUM_LEDS * 16))"
    by (simp add: before_draw_pos16 NUM_LEDS_def)
  show ?thesis
    using ok p
    by (simp add: l advance_pos_ok advance_fields before_draw_mp3 before_draw_brightness
        before_draw_wasOverSensor before_draw_bar)
qed

subsection \<open>Sequences of frames\<close>

lemma run_append:
  "run (xs @ ys) s = (case run xs s of Inl e \<Rightarrow> Inl e | Inr s' \<Rightarrow> run ys s')"
  by (induction xs arbitrary: s) (simp_all split: sum.splits)

lemma run_pos_ok: "pos_ok s \<Longrightarrow> \<exists>s'. run rds s = Inr s' \<and> pos_ok s'"
proof (induction rds arbitrary: s)
  case Nil
  then show ?case by simp
next
  case (Cons rd rds)
  from loop_fields [OF Cons.prems, of rd] obtain s1 where
    s1: "loop rd s = Inr s1" "pos_ok s1" by blast
  from Cons.IH [OF s1(2)] show ?case by (simp add: s1(1))
qed

lemma fade_eq: "0 \<le> b \<Longrightarrow> b < 32768 \<Longrightarrow> fade b = b * 4 div 5"
  by (simp add: fade_def mul_0_8f_eq Let_def)

lemma fade_range: "0 \<le> b \<Longrightarrow> b \<le> 255 \<Longrightarrow> 0 \<le> fade b \<and> fade b \<le> b"
  by (simp add: fade_eq) presburger

lemma sensor_fold_range:
  "\<forall>j\<in>set js. j < numSensors \<Longrightarrow>
   length' (fst (foldl (sensor_step rd) sb js)) \<in> insert (length' (fst sb)) (set lengths) \<and>
   hue (fst (foldl (sensor_step rd) sb js)) \<in> insert (hue (fst sb)) (set hues)"
proof (induction js arbitrary: sb)
  case Nil
  then show ?case by simp
next
  case (Cons j js)
  then have j: "j < numSensors" by simp
  moreover have "length lengths = numSensors" "length hues = numSensors"
    by (simp_all add: numSensors_def lengths_def hues_def)
  ultimately have "lengths ! j \<in> set lengths" "hues ! j \<in> set hues"
    by (simp_all only: nth_mem)
  then have "length' (fst (sensor_step rd sb j)) \<in> insert (length' (fst sb)) (set lengths)"
    "hue (fst (sensor_step rd sb j)) \<in> insert (hue (fst sb)) (set hues)"
    by (simp_all add: sensor_step_def)
  moreover from Cons have
    "length' (fst (foldl (sensor_step rd) (sensor_step rd sb j) js))
       \<in> insert (length' (fst (sensor_step rd sb j))) (set lengths) \<and>
     hue (fst (foldl (sensor_step rd) (sensor_step rd sb j) js))
       \<in> insert (hue (fst (sensor_step rd sb j))) (set hues)"
    by simp
  ultimately show ?case by auto
qed

lemma read_sensors_range:
  "length' (fst (read_sensors rd s)) \<in> insert (length' s) (set lengths)"
  "hue (fst (read_sensors rd s)) \<in> insert (hue s) (set hues)"
  using sensor_fold_range [of "[0..<numSensors]" rd "(s, False)"]
  by (simp_all add: read_sensors_def)

lemma loop_state_ok:
  assumes "state_ok s"
  shows "\<exists>s'. loop rd s = Inr s' \<and> state_ok s'"
proof -
  have ok: "pos_ok s" using assms by (simp add: state_ok_def)
  from loop_fields [OF ok, of rd] obtain s' where s': "loop rd s = Inr s'" "pos_ok s'"
    "brightness s' = (if active rd then 255 else fade (brightness s))"
    "length' s' = length' (fst (read_sensors rd s))"
    "hue s' = hue (fst (read_sensors rd s))" by blast
  have "0 \<le> brightness s' \<and> brightness s' \<le> 255"
    using assms fade_range [of "brightness s"] by (auto simp: s'(3) state_ok_def)
  moreover have "1 \<le> length' s' \<and> length' s' < NUM_LEDS"
    using read_sensors_range(1) [of rd s] assms
    by (auto simp: s'(4) state_ok_def lengths_def NUM_LEDS_def)
  moreover have "0 \<le> hue s' \<and> hue s' \<le> 255"
    using read_sensors_range(2) [of rd s] assms
    by (auto simp: s'(5) state_ok_def hues_def)
  ultimately show ?thesis using s'(1,2) by (simp add: state_ok_def)
qed

lemma run_state_ok: "\<exists>s'. run rds initial = Inr s' \<and> state_ok s'"
proof -
  have "state_ok s \<Longrightarrow> \<exists>s'. run rds s = Inr s' \<and> state_ok s'" for s
  proof (induction rds arbitrary: s)
    case Nil
    then show ?case by simp
  next
    case (Cons rd rds)
    from loop_state_ok [OF Cons.prems, of rd] obtain s1 where
      s1: "loop rd s = Inr s1" "state_ok s1" by blast
    from Cons.IH [OF s1(2)] show ?case by (simp add: s1(1))
  qed
  moreover have "state_ok initial"
    by (simp add: state_ok_def pos_ok_def initial_def NUM_LEDS_def)
  ultimately show ?thesis by blast
qed

lemma run_idle:
  assumes "pos_ok s" "list_all (\<lambda>rd. \<not> active rd) rds"
  shows "\<exists>s'. run rds s = Inr s' \<and> pos_ok s'
      \<and> pos16 s' = (pos16 s + int (length rds)) mod (NUM_LEDS * 16)
      \<and> brightness s' = (fade ^^ length rds) (brightness s)
      \<and> length' s' = length' s \<and> hue s' = hue s \<and> mp3 s' = mp3 s
      \<and> wasOverSensor s' = (rds = [] \<and> wasOverSensor s)"
  using assms
proof (induction rds arbitrary: s)
  case Nil
  then show ?case by (simp add: pos_ok_def)
next
  case (Cons rd rds)
  then have idle: "\<not> active rd" and rest: "list_all (\<lambda>rd. \<not> active rd) rds" by simp_all
  from loop_fields [OF Cons.prems(1), of rd] idle obtain s1 where
    s1: "loop rd s = Inr s1" "pos_ok s1" "pos16 s1 = (pos16 s + 1) mod (NUM_LEDS * 16)"
      "mp3 s1 = mp3 s" "brightness s1 = fade (brightness s)" "\<not> wasOverSensor s1"
      "length' s1 = length' s" "hue s1 = hue s"
    by (auto simp: read_sensors_idle)
  from Cons.IH [OF s1(2) rest] obtain s' where
    s': "run rds s1 = Inr s'" "pos_ok s'"
      "pos16 s' = (pos16 s1 + int (length rds)) mod (NUM_LEDS * 16)"
      "brightness s' = (fade ^^ length rds) (brightness s1)"
      "length' s' = length' s1" "hue s' = hue s1" "mp3 s' = mp3 s1"
      "wasOverSensor s' = (rds = [] \<and> wasOverSensor s1)" by blast
  have "pos16 s' = (pos16 s + int (length (rd # rds))) mod (NUM_LEDS * 16)"
    by (simp add: s'(3) s1(3) mod_add_left_eq add.assoc)
  moreover have "brightness s' = (fade ^^ length (rd # rds)) (brightness s)"
    by (simp add: s'(4) s1(5) funpow_swap1)
  ultimately show ?case
    using s1 s' by simp
qed

subsection \<open>Concrete readings\<close>

lemma sensor_index_list: "[0..<numSensors] = [0, 1, 2, 3, 4, 5]"
  by (simp add: numSensors_def upt_rec)

lemma asserted_pins_low:
  "asserted (pins_low ps) i = (sensorPins ! i \<in> set ps)"
  by (simp add: asserted_def pins_low_def)

lemma active_pins_low:
  "active (pins_low ps) = (\<exists>q \<in> set sensorPins. q \<in> set ps)"
  by (auto simp: active_def sensor_index_list asserted_pins_low sensorPins_def list_ex_iff)

lemma not_active_no_sensor: "\<not> active no_sensor"
  by (simp add: active_def sensor_index_list asserted_def no_sensor_def)

lemma pos_ok_initial: "pos_ok initial"
  by (simp add: pos_ok_def initial_def NUM_LEDS_def)

lemma initial_fields:
  "pos16 initial = 0" "hue initial = 20" "brightness initial = 0" "length' initial = 1"
  "wasOverSensor initial = False" "mp3 initial = []"
  by (simp_all add: initial_def)

subsection \<open>The cue\<close>

lemma run_mp3:
  assumes "pos_ok s"
  shows "\<exists>s'. run rds s = Inr s' \<and>
     mp3 s' = mp3 s @ replicate (rising_edges (wasOverSensor s) (map active rds)) 1"
  using assms
proof (induction rds arbitrary: s)
  case Nil
  then show ?case by simp
next
  case (Cons rd rds)
  from loop_fields [OF Cons.prems, of rd] obtain s1 where
    s1: "loop rd s = Inr s1" "pos_ok s1"
      "mp3 s1 = mp3 s @ (if active rd \<and> \<not> wasOverSensor s then [1] else [])"
      "wasOverSensor s1 = active rd" by blast
  from Cons.IH [OF s1(2)] obtain s' where
    s': "run rds s1 = Inr s'"
      "mp3 s' = mp3 s1 @ replicate (rising_edges (wasOverSensor s1) (map active rds)) 1" by blast
  show ?case
    by (simp add: s1(1,3,4) s' replicate_add [symmetric] del: replicate_Suc)
       (simp flip: replicate_Suc replicate_app_Cons_same)
qed

subsection \<open>The fade\<close>

lemma fade_funpow_range:
  "0 \<le> b \<Longrightarrow> b \<le> 255 \<Longrightarrow> 0 \<le> (fade ^^ n) b \<and> (fade ^^ n) b \<le> b"
proof (induction n)
  case 0
  then show ?case by simp
next
  case (Suc n)
  then have "0 \<le> (fade ^^ n) b" "(fade ^^ n) b \<le> 255" by simp_all
  from fade_range [OF this] Suc show ?case by simp
qed

lemma fade_mono: "0 \<le> a \<Longrightarrow> a \<le> b \<Longrightarrow> b \<le> 255 \<Longrightarrow> fade a \<le> fade b"
  by (simp add: fade_eq zdiv_mono1)

lemma fade_funpow_mono:
  "0 \<le> a \<Longrightarrow> a \<le> b \<Longrightarrow> b \<le> 255 \<Longrightarrow> (fade ^^ n) a \<le> (fade ^^ n) b"
proof (induction n)
  case 0
  then show ?case by simp
next
  case (Suc n)
  have "0 \<le> (fade ^^ n) a" using fade_funpow_range [of a n] Suc.prems by simp
  moreover have "(fade ^^ n) a \<le> (fade ^^ n) b" using Suc by simp
  moreover have "(fade ^^ n) b \<le> 255" using fade_funpow_range [of b n] Suc.prems by simp
  ultimately show ?case by (simp add: fade_mono)
qed

lemma fade_funpow_eq:
  "0 \<le> b \<Longrightarrow> b \<le> 255 \<Longrightarrow> (fade ^^ n) b = ((\<lambda>b. b * 4 div 5) ^^ n) b"
proof (induction n)
  case 0
  then show ?case by simp
next
  case (Suc n)
  have "0 \<le> (fade ^^ n) b" "(fade ^^ n) b < 32768"
    using fade_funpow_range [of b n] Suc.prems by simp_all
  then have "fade ((fade ^^ n) b) = (fade ^^ n) b * 4 div 5" by (rule fade_eq)
  with Suc show ?case by simp
qed

lemma fade_21: "(fade ^^ 21) 255 = 0"
proof -
  have "((\<lambda>b::int. b * 4 div 5) ^^ 21) 255 = 0"
    by (simp add: eval_nat_numeral)
  then show ?thesis by (simp add: fade_funpow_eq)
qed

lemma fade_dark:
  assumes "0 \<le> b" "b \<le> 255" "21 \<le> n"
  shows "(fade ^^ n) b = 0"
proof -
  have "(fade ^^ 21) b \<le> (fade ^^ 21) 255" using assms(1,2) by (intro fade_funpow_mono) simp_all
  moreover have "0 \<le> (fade ^^ 21) b" using fade_funpow_range [OF assms(1,2)] by simp
  ultimately have z: "(fade ^^ 21) b = 0" by (simp add: fade_21)
  have "(fade ^^ n) b = (fade ^^ ((n - 21) + 21)) b" using assms(3) by simp
  also have "\<dots> = (fade ^^ (n - 21)) ((fade ^^ 21) b)" by (simp only: funpow_add o_apply)
  also have "\<dots> = 0" using fade_funpow_range [of 0 "n - 21"] by (simp add: z)
  finally show ?thesis .
qed

lemma fade_closed_form_div: "fade_closed_form n = 255 * 4 ^ n div 5 ^ n"
proof -
  have "(0.8::real) = 4 / 5" by simp
  then have "255 * (0.8::real) ^ n = of_int (255 * 4 ^ n) / of_int (5 ^ n)"
    by (simp add: power_divide)
  then show ?thesis
    unfolding fade_closed_form_def by (simp only: floor_divide_of_int_eq)
qed

lemma fade_steps_below:
  "((\<lambda>b::int. b * 4 div 5) ^^ n) 255 * 5 ^ n \<le> 255 * 4 ^ n"
proof (induction n)
  case 0
  then show ?case by simp
next
  case (Suc n)
  define y where "y = ((\<lambda>b::int. b * 4 div 5) ^^ n) 255"
  have "y * 4 div 5 * 5 \<le> y * 4" by simp
  then have "y * 4 div 5 * 5 * 5 ^ n \<le> y * 4 * 5 ^ n"
    by (rule mult_right_mono) simp
  also have "\<dots> = (y * 5 ^ n) * 4" by simp
  also have "\<dots> \<le> (255 * 4 ^ n) * 4"
    using Suc unfolding y_def by (intro mult_right_mono) simp_all
  finally show ?case by (simp add: y_def mult.assoc mult.left_commute)
qed

lemma fade_below_closed_form:
  "((\<lambda>b::int. b * 4 div 5) ^^ n) 255 \<le> fade_closed_form n"
proof -
  let ?x = "((\<lambda>b::int. b * 4 div 5) ^^ n) 255"
  have "?x = ?x * 5 ^ n div 5 ^ n" by simp
  also have "\<dots> \<le> 255 * 4 ^ n div 5 ^ n"
    using fade_steps_below [of n] by (rule zdiv_mono1) simp
  finally show ?thesis by (simp only: fade_closed_form_div)
qed

lemma fade_steps_values:
  "((\<lambda>b::int. b * 4 div 5) ^^ 0) 255 = 255"
  "((\<lambda>b::int. b * 4 div 5) ^^ 1) 255 = 204"
  "((\<lambda>b::int. b * 4 div 5) ^^ 2) 255 = 163"
  "((\<lambda>b::int. b * 4 div 5) ^^ 3) 255 = 130"
  "((\<lambda>b::int. b * 4 div 5) ^^ 4) 255 = 104"
  "((\<lambda>b::int. b * 4 div 5) ^^ 5) 255 = 83"
  "((\<lambda>b::int. b * 4 div 5) ^^ 6) 255 = 66"
  "((\<lambda>b::int. b * 4 div 5) ^^ 7) 255 = 52"
  by (simp_all add: eval_nat_numeral)

lemma closed_form_values:
  "(255::int) * 4 ^ 0 div 5 ^ 0 = 255"
  "(255::int) * 4 ^ 1 div 5 ^ 1 = 204"
  "(255::int) * 4 ^ 2 div 5 ^ 2 = 163"
  "(255::int) * 4 ^ 3 div 5 ^ 3 = 130"
  "(255::int) * 4 ^ 4 div 5 ^ 4 = 104"
  "(255::int) * 4 ^ 5 div 5 ^ 5 = 83"
  "(255::int) * 4 ^ 6 div 5 ^ 6 = 66"
  "(255::int) * 4 ^ 7 div 5 ^ 7 = 53"
  by simp_all

lemma fade_first_frames:
  assumes "n \<le> 6"
  shows "((\<lambda>b::int. b * 4 div 5) ^^ n) 255 = fade_closed_form n"
proof -
  from assms have "n = 0 \<or> n = 1 \<or> n = 2 \<or> n = 3 \<or> n = 4 \<or> n = 5 \<or> n = 6" by arith
  then show ?thesis
    unfolding fade_closed_form_div
    by (elim disjE) (simp_all only: fade_steps_values closed_form_values)
qed

subsection \<open>The bar at the end of the strip\<close>

lemma list_all_idle_replicate: "list_all (\<lambda>rd. \<not> active rd) (replicate n no_sensor)"
  by (simp add: list_all_iff not_active_no_sensor)

lemma drawLightbar_slots_191:
  "drawLightbar_slots 191 2 h =
     [(11, CHSV (word_of_int h) 255 15), (0, CHSV (word_of_int h) 255 255),
      (1, CHSV (word_of_int h) 255 240)]"
proof -
  have "lightbar_slots 0 11 2 h 15 240 =
     [(11, CHSV (word_of_int h) 255 15), (0, CHSV (word_of_int h) 255 255),
      (1, CHSV (word_of_int h) 255 240)]"
    by (simp add: lightbar_slots.simps [of 0] lightbar_slots.simps [of 1]
        lightbar_slots.simps [of 2] lightbar_slots.simps [of 3] NUM_LEDS_def Let_def)
  then show ?thesis
    by (simp add: drawLightbar_slots_def c_div_def and_15_mod Let_def)
qed

lemma drawLightbar_191:
  "drawLightbar (replicate (nat NUM_LEDS) []) 191 2 h =
     Inr ([[CHSV (word_of_int h) 255 255], [CHSV (word_of_int h) 255 240]]
          @ replicate 9 [] @ [[CHSV (word_of_int h) 255 15]])"
  by (simp add: drawLightbar_def drawLightbar_slots_191 NUM_LEDS_def eval_nat_numeral)

lemma asserted_first_only:
  "asserted (pins_low [2]) 0" "\<forall>j. 0 < j \<and> j < numSensors \<longrightarrow> \<not> asserted (pins_low [2]) j"
proof -
  show "asserted (pins_low [2]) 0" by (simp add: asserted_pins_low sensorPins_def)
  show "\<forall>j. 0 < j \<and> j < numSensors \<longrightarrow> \<not> asserted (pins_low [2]) j"
  proof (intro allI impI)
    fix j :: nat
    assume "0 < j \<and> j < numSensors"
    then have "j = 1 \<or> j = 2 \<or> j = 3 \<or> j = 4 \<or> j = 5" by (auto simp: numSensors_def)
    then show "\<not> asserted (pins_low [2]) j"
      by (elim disjE) (simp_all add: asserted_pins_low sensorPins_def)
  qed
qed

section \<open>The claims\<close>

text \<open>
  C1 (as amended). For every pair of consecutive frames of the loop, the value of \<open>pos16\<close>
  at the end of the later frame equals \<open>(p + 1) mod (STRIP_LEN * 16)\<close>, where \<open>p\<close> is its
  value at the end of the earlier frame, except on a rising-edge frame (some sensor
  asserted, none asserted in the earlier frame): there \<open>pos16\<close> is reset to 0 before the bar
  is drawn, the bar is drawn at position 0, and \<open>pos16\<close> equals 1 at the end of the frame.
\<close>

theorem pos16_advance:
  assumes "pos_ok s0"
  shows "\<exists>s1 s2. loop rd1 s0 = Inr s1 \<and> loop rd2 s1 = Inr s2
     \<and> pos16 (before_draw rd2 s1) = (if active rd2 \<and> \<not> active rd1 then 0 else pos16 s1)
     \<and> pos16 s2 = (if active rd2 \<and> \<not> active rd1 then 1
                    else (pos16 s1 + 1) mod (NUM_LEDS * 16))"
proof -
  from loop_fields [OF assms, of rd1] obtain s1 where
    s1: "loop rd1 s0 = Inr s1" "pos_ok s1" "wasOverSensor s1 = active rd1" by blast
  from loop_fields [OF s1(2), of rd2] obtain s2 where
    s2: "loop rd2 s1 = Inr s2"
      "pos16 s2 = (if active rd2 \<and> \<not> wasOverSensor s1 then 1
                   else (pos16 s1 + 1) mod (NUM_LEDS * 16))" by blast
  show ?thesis
    using s1(1) s2 by (simp add: before_draw_pos16 s1(3))
qed

theorem pos16_advance_witness:
  "pos_ok initial
   \<and> (\<exists>s1 s2. loop no_sensor initial = Inr s1 \<and> loop (pins_low [5]) s1 = Inr s2
         \<and> pos16 (before_draw (pins_low [5]) s1) = 0 \<and> pos16 s2 = 1)
   \<and> (\<exists>s1 s2. loop (pins_low [5]) initial = Inr s1 \<and> loop (pins_low [5]) s1 = Inr s2
         \<and> pos16 s2 = (pos16 s1 + 1) mod 192)"
  using pos16_advance [OF pos_ok_initial, of no_sensor "pins_low [5]"]
    pos16_advance [OF pos_ok_initial, of "pins_low [5]" "pins_low [5]"]
  by (auto simp add: pos_ok_initial active_pins_low not_active_no_sensor sensorPins_def
        NUM_LEDS_def)

text \<open>
  The claim as it was stated fails: in the second of the two frames below a sensor is
  asserted and none was in the first, and the frame ends with \<open>pos16 = 1\<close>, not 0.
\<close>

theorem pos16_rising_edge_counterexample:
  "\<not> active no_sensor \<and> active (pins_low [2])
   \<and> \<not> isl (run [no_sensor, pins_low [2]] initial)
   \<and> pos16 (projr (run [no_sensor, pins_low [2]] initial)) = 1"
proof -
  from loop_fields [OF pos_ok_initial, of no_sensor] obtain s1 where
    s1: "loop no_sensor initial = Inr s1" "pos_ok s1" "wasOverSensor s1 = active no_sensor"
    by blast
  from loop_fields [OF s1(2), of "pins_low [2]"] obtain s2 where
    s2: "loop (pins_low [2]) s1 = Inr s2"
      "pos16 s2 = (if active (pins_low [2]) \<and> \<not> wasOverSensor s1 then 1
                   else (pos16 s1 + 1) mod (NUM_LEDS * 16))" by blast
  have a: "active (pins_low [2])" by (simp add: active_pins_low sensorPins_def)
  have "run [no_sensor, pins_low [2]] initial = Inr s2" by (simp add: s1(1) s2(1))
  moreover have "pos16 s2 = 1" using a by (simp add: s2(2) s1(3) not_active_no_sensor)
  ultimately show ?thesis using a by (simp add: not_active_no_sensor)
qed

text \<open>
  C2. For every \<open>pos16\<close> in \<open>[0, STRIP_LEN * 16)\<close> and every length with
  \<open>1 \<le> length < STRIP_LEN\<close>, the brightness values painted by
  \<open>drawLightbar(pos16, length, hue)\<close> over its \<open>length + 1\<close> pixel slots are the head
  brightness \<open>255 - (pos16 mod 16) * 16\<close>, then 255 for the middle slots, then the
  complement of the head for the tail, and their sum is \<open>255 * length\<close>.
\<close>

theorem brightness_conservation:
  assumes "0 \<le> p" "p < NUM_LEDS * 16" "1 \<le> len" "len < NUM_LEDS"
  shows "length (drawLightbar_slots p len h) = nat (len + 1)
    \<and> painted_brightness (drawLightbar_slots p len h) =
        (255 - (p mod 16) * 16) # replicate (nat (len - 1)) 255 @ [255 - (255 - (p mod 16) * 16)]
    \<and> sum_list (painted_brightness (drawLightbar_slots p len h)) = 255 * len"
proof -
  have n: "length (drawLightbar_slots p len h) = nat (len + 1)"
    by (simp add: drawLightbar_slots_def Let_def length_lightbar_slots)
  have b: "painted_brightness (drawLightbar_slots p len h) =
        (255 - (p mod 16) * 16) # replicate (nat (len - 1)) 255 @ [255 - (255 - (p mod 16) * 16)]"
    unfolding drawLightbar_slots_def Let_def and_15_mod
    using assms(3) frac_bounds [of p] by (intro painted_brightness_bar)
  have "sum_list (painted_brightness (drawLightbar_slots p len h)) = 255 * len"
    using assms(3) by (simp add: b sum_list_replicate algebra_simps)
  with n b show ?thesis by blast
qed

theorem brightness_conservation_witness:
  "(0::int) \<le> 37 \<and> 37 < NUM_LEDS * 16 \<and> (1::int) \<le> 5 \<and> 5 < NUM_LEDS
   \<and> painted_brightness (drawLightbar_slots 37 5 90) = [175, 255, 255, 255, 255, 80]
   \<and> sum_list (painted_brightness (drawLightbar_slots 37 5 90)) = 1275"
  using brightness_conservation [of 37 5 90]
  by (simp add: NUM_LEDS_def eval_nat_numeral)

text \<open>
  C3. For every finite sequence of frames from any state of the data model, the number of
  \<open>mp3.playTrack\<close> calls issued by the loop equals the number of false-to-true transitions
  in the per-frame "any sensor asserted" sequence (the flag \<open>wasOverSensor\<close> of the
  starting state being the sample before the first frame); exactly one call, for track 1,
  is made on each rising-edge frame and none on any other frame.
\<close>

theorem cue_on_rising_edges:
  assumes "pos_ok s"
  shows "(\<exists>s'. run rds s = Inr s'
            \<and> mp3 s' = mp3 s @ replicate (rising_edges (wasOverSensor s) (map active rds)) 1
            \<and> length (mp3 s') = length (mp3 s) + rising_edges (wasOverSensor s) (map active rds))
       \<and> (\<exists>s'. loop rd s = Inr s'
            \<and> mp3 s' = mp3 s @ (if active rd \<and> \<not> wasOverSensor s then [1] else []))"
proof -
  from run_mp3 [OF assms, of rds] obtain s' where s': "run rds s = Inr s'"
    "mp3 s' = mp3 s @ replicate (rising_edges (wasOverSensor s) (map active rds)) 1" by blast
  have "length (mp3 s') = length (mp3 s) + rising_edges (wasOverSensor s) (map active rds)"
    by (simp add: s'(2))
  with s' have "\<exists>s'. run rds s = Inr s'
            \<and> mp3 s' = mp3 s @ replicate (rising_edges (wasOverSensor s) (map active rds)) 1
            \<and> length (mp3 s') = length (mp3 s) + rising_edges (wasOverSensor s) (map active rds)"
    by blast
  moreover from loop_fields [OF assms, of rd]
  have "\<exists>s'. loop rd s = Inr s'
            \<and> mp3 s' = mp3 s @ (if active rd \<and> \<not> wasOverSensor s then [1] else [])"
    by blast
  ultimately show ?thesis by blast
qed

theorem cue_on_rising_edges_witness:
  "pos_ok initial
   \<and> (\<exists>s'. run [pins_low [4], pins_low [4], no_sensor, pins_low [7], no_sensor] initial = Inr s'
          \<and> mp3 s' = [1, 1])
   \<and> (\<exists>s'. loop (pins_low [4]) initial = Inr s' \<and> mp3 s' = [1])"
  using cue_on_rising_edges [OF pos_ok_initial,
      of "[pins_low [4], pins_low [4], no_sensor, pins_low [7], no_sensor]" "pins_low [4]"]
  by (auto simp add: pos_ok_initial active_pins_low not_active_no_sensor sensorPins_def
        initial_fields simp del: run.simps)

text \<open>
  C4. From the initial state (\<open>pos16 = 0\<close>), after every frame the loop has returned and
  \<open>0 \<le> pos16 < NUM_LEDS * 16\<close>, that is \<open>0 \<le> pos16 < 192\<close>.
\<close>

theorem pos16_in_strip:
  "\<exists>s'. run rds initial = Inr s' \<and> 0 \<le> pos16 s' \<and> pos16 s' < NUM_LEDS * 16
        \<and> NUM_LEDS * 16 = 192"
  using run_pos_ok [OF pos_ok_initial, of rds]
  by (auto simp: pos_ok_def NUM_LEDS_def)

theorem pos16_in_strip_witness:
  "\<exists>s'. run [pins_low [2], no_sensor, pins_low [5, 6]] initial = Inr s'
        \<and> 0 \<le> pos16 s' \<and> pos16 s' < 192"
  using pos16_in_strip [of "[pins_low [2], no_sensor, pins_low [5, 6]]"]
  by (auto simp add: NUM_LEDS_def simp del: run.simps)

text \<open>
  C5 (as amended). Starting with \<open>brightness = 255\<close>, after a run of \<open>n\<close> consecutive
  frames in which no sensor is asserted the brightness is the \<open>n\<close>-fold application of
  \<open>b \<mapsto> floor(b * 4 / 5)\<close> to 255 (204, 163, 130, 104, 83, 66, 52, ...). It is
  non-negative and never above \<open>floor(255 * 0.8^n)\<close>, equals it for \<open>n \<le> 6\<close>, and is 0
  for every \<open>n \<ge> 21\<close>.
\<close>

theorem fade_after_release:
  assumes "pos_ok s" "brightness s = 255" "list_all (\<lambda>rd. \<not> active rd) rds"
  shows "\<exists>s'. run rds s = Inr s'
     \<and> brightness s' = ((\<lambda>b. b * 4 div 5) ^^ length rds) 255
     \<and> 0 \<le> brightness s' \<and> brightness s' \<le> fade_closed_form (length rds)
     \<and> (length rds \<le> 6 \<longrightarrow> brightness s' = fade_closed_form (length rds))
     \<and> (21 \<le> length rds \<longrightarrow> brightness s' = 0)"
proof -
  from run_idle [OF assms(1,3)] obtain s' where
    s': "run rds s = Inr s'" "brightness s' = (fade ^^ length rds) 255"
    by (auto simp: assms(2))
  have e: "brightness s' = ((\<lambda>b. b * 4 div 5) ^^ length rds) 255"
    by (simp add: s'(2) fade_funpow_eq)
  have "0 \<le> brightness s'" using fade_funpow_range [of 255 "length rds"] by (simp add: s'(2))
  moreover have "brightness s' \<le> fade_closed_form (length rds)"
    unfolding e by (rule fade_below_closed_form)
  moreover have "length rds \<le> 6 \<longrightarrow> brightness s' = fade_closed_form (length rds)"
    unfolding e using fade_first_frames by blast
  moreover have "21 \<le> length rds \<longrightarrow> brightness s' = 0"
    using fade_dark [of 255 "length rds"] by (simp add: s'(2))
  ultimately show ?thesis using s'(1) e by blast
qed

theorem fade_after_release_witness:
  "pos_ok (initial\<lparr> brightness := 255 \<rparr>) \<and> brightness (initial\<lparr> brightness := 255 \<rparr>) = 255
   \<and> list_all (\<lambda>rd. \<not> active rd) (replicate 3 no_sensor)
   \<and> (\<exists>s'. run (replicate 3 no_sensor) (initial\<lparr> brightness := 255 \<rparr>) = Inr s'
          \<and> brightness s' = 130 \<and> fade_closed_form 3 = 130)"
proof -
  have ok: "pos_ok (initial\<lparr> brightness := 255 \<rparr>)"
    using pos_ok_initial by (simp add: pos_ok_def)
  from fade_after_release [OF ok _ list_all_idle_replicate, of 3]
  show ?thesis
    by (auto simp add: ok list_all_idle_replicate fade_steps_values)
qed

text \<open>
  The claim as it was stated fails at \<open>n = 7\<close>: one frame with a sensor asserted sets the
  brightness to 255, and seven idle frames later it is 52, while
  \<open>floor(255 * 0.8^7) = 53\<close>.
\<close>

theorem fade_closed_form_counterexample:
  "\<not> isl (run [pins_low [2]] initial)
   \<and> brightness (projr (run [pins_low [2]] initial)) = 255
   \<and> \<not> isl (run (pins_low [2] # replicate 7 no_sensor) initial)
   \<and> brightness (projr (run (pins_low [2] # replicate 7 no_sensor) initial)) = 52
   \<and> fade_closed_form 7 = 53"
proof -
  have a: "active (pins_low [2])" by (simp add: active_pins_low sensorPins_def)
  from loop_fields [OF pos_ok_initial, of "pins_low [2]"] a obtain s1 where
    s1: "loop (pins_low [2]) initial = Inr s1" "pos_ok s1" "brightness s1 = 255" by auto
  from run_idle [OF s1(2) list_all_idle_replicate, of 7] obtain s' where
    s': "run (replicate 7 no_sensor) s1 = Inr s'" "brightness s' = (fade ^^ 7) 255"
    by (auto simp: s1(3))
  have "brightness s' = 52"
    by (simp add: s'(2) fade_funpow_eq fade_steps_values)
  moreover have "fade_closed_form 7 = 53"
    by (simp only: fade_closed_form_div closed_form_values)
  moreover have "run [pins_low [2]] initial = Inr s1" by (simp add: s1(1))
  moreover have "run (pins_low [2] # replicate 7 no_sensor) initial = Inr s'"
    by (simp only: run.simps s1(1) sum.case s'(1))
  ultimately show ?thesis by (simp add: s1(3))
qed

text \<open>
  C6 (as amended). For every call \<open>drawLightbar(pos16, length, hue)\<close> with
  \<open>0 \<le> pos16 < STRIP_LEN * 16\<close>, the pixel slot \<open>k\<close> (\<open>k = 0 .. length\<close>) is painted at strip
  index \<open>(floor(pos16 / 16) + k) mod STRIP_LEN\<close>. With \<open>pos16 = 191\<close> and \<open>length = 2\<close> the
  bar occupies pixels 11, 0 and 1 with head brightness 15, middle brightness 255 and tail
  brightness 240. A frame starting at \<open>pos16 = 191\<close> that is not a rising-edge frame draws
  its bar at 191 and ends with \<open>pos16 = 0\<close>; a rising-edge frame starting there draws its
  bar at 0 and ends with \<open>pos16 = 1\<close>.
\<close>

theorem bar_wraps_around:
  assumes "0 \<le> p" "p < NUM_LEDS * 16" "int k \<le> len" "pos16 s = 191"
  shows "length (drawLightbar_slots p len h) = nat (len + 1)
     \<and> fst (drawLightbar_slots p len h ! k) = (p div 16 + int k) mod NUM_LEDS
     \<and> map fst (drawLightbar_slots 191 2 h) = [11, 0, 1]
     \<and> painted_brightness (drawLightbar_slots 191 2 h) = [15, 255, 240]
     \<and> drawLightbar (replicate (nat NUM_LEDS) []) 191 2 h =
         Inr ([[CHSV (word_of_int h) 255 255], [CHSV (word_of_int h) 255 240]]
              @ replicate 9 [] @ [[CHSV (word_of_int h) 255 15]])
     \<and> (\<exists>s'. loop rd s = Inr s'
          \<and> pos16 (before_draw rd s) = (if active rd \<and> \<not> wasOverSensor s then 0 else 191)
          \<and> pos16 s' = (if active rd \<and> \<not> wasOverSensor s then 1 else 0))"
proof -
  have "length (drawLightbar_slots p len h) = nat (len + 1)"
    by (simp add: drawLightbar_slots_def Let_def length_lightbar_slots)
  moreover have "fst (drawLightbar_slots p len h ! k) = (p div 16 + int k) mod NUM_LEDS"
    by (simp add: drawLightbar_slots_nth [OF assms(1,2,3)])
  moreover have "map fst (drawLightbar_slots 191 2 h) = [11, 0, 1]"
    "painted_brightness (drawLightbar_slots 191 2 h) = [15, 255, 240]"
    by (simp_all add: drawLightbar_slots_191 painted_brightness_def)
  moreover have "\<exists>s'. loop rd s = Inr s'
          \<and> pos16 (before_draw rd s) = (if active rd \<and> \<not> wasOverSensor s then 0 else 191)
          \<and> pos16 s' = (if active rd \<and> \<not> wasOverSensor s then 1 else 0)"
  proof -
    have "pos_ok s" using assms(4) by (simp add: pos_ok_def NUM_LEDS_def)
    from loop_fields [OF this, of rd] show ?thesis
      by (auto simp: assms(4) before_draw_pos16 NUM_LEDS_def)
  qed
  ultimately show ?thesis using drawLightbar_191 [of h] by blast
qed

theorem bar_wraps_around_witness:
  "(0::int) \<le> 191 \<and> 191 < NUM_LEDS * 16 \<and> int 2 \<le> 2
   \<and> pos16 (initial\<lparr> pos16 := 191, length' := 2 \<rparr>) = 191
   \<and> fst (drawLightbar_slots 191 2 0 ! 2) = 1
   \<and> (\<exists>s'. loop no_sensor (initial\<lparr> pos16 := 191, length' := 2 \<rparr>) = Inr s' \<and> pos16 s' = 0)"
  using bar_wraps_around [of 191 2 2 "initial\<lparr> pos16 := 191, length' := 2 \<rparr>" 0 no_sensor]
  by (auto simp add: NUM_LEDS_def not_active_no_sensor)

text \<open>
  The last part of the claim as it was stated fails on a rising edge. One frame with sensor
  0 asserted and 190 idle frames lead from power-on to \<open>pos16 = 191\<close> with \<open>length = 2\<close>; the
  next frame, with the sensor asserted again, ends with \<open>pos16 = 1\<close>.
\<close>

theorem frame_at_191_counterexample:
  "\<not> isl (run (pins_low [2] # replicate 190 no_sensor) initial)
   \<and> pos16 (projr (run (pins_low [2] # replicate 190 no_sensor) initial)) = 191
   \<and> length' (projr (run (pins_low [2] # replicate 190 no_sensor) initial)) = 2
   \<and> \<not> isl (loop (pins_low [2]) (projr (run (pins_low [2] # replicate 190 no_sensor) initial)))
   \<and> pos16 (projr (loop (pins_low [2])
        (projr (run (pins_low [2] # replicate 190 no_sensor) initial)))) = 1"
proof -
  have a: "active (pins_low [2])" by (simp add: active_pins_low sensorPins_def)
  have l: "length' (fst (read_sensors (pins_low [2]) initial)) = 2"
    using read_sensors_highest [OF _ asserted_first_only, of initial]
    by (simp add: numSensors_def lengths_def)
  from loop_fields [OF pos_ok_initial, of "pins_low [2]"] a obtain s1 where
    s1: "loop (pins_low [2]) initial = Inr s1" "pos_ok s1" "pos16 s1 = 1" "length' s1 = 2"
    by (auto simp: initial_fields l)
  from run_idle [OF s1(2) list_all_idle_replicate, of 190] obtain s2 where
    s2: "run (replicate 190 no_sensor) s1 = Inr s2" "pos_ok s2" "pos16 s2 = 191"
      "length' s2 = 2" "\<not> wasOverSensor s2"
    by (auto simp: s1(3,4) NUM_LEDS_def)
  from loop_fields [OF s2(2), of "pins_low [2]"] a s2(5) obtain s3 where
    s3: "loop (pins_low [2]) s2 = Inr s3" "pos16 s3 = 1" by auto
  have "run (pins_low [2] # replicate 190 no_sensor) initial = Inr s2"
    by (simp only: run.simps s1(1) sum.case s2(1))
  then show ?thesis by (simp add: s2(3,4) s3)
qed

text \<open>
  C7. For every frame in which sensors are asserted, two or more included, the loop
  selects the parameters of the highest-index asserted sensor \<open>i\<close>: the bar is drawn with,
  and the frame ends with, \<open>length = lengths[i]\<close> and \<open>hue = hues[i]\<close>. With sensors 1
  and 4 asserted this gives length 6 and hue 120.
\<close>

theorem highest_sensor_wins:
  assumes "pos_ok s" "i < numSensors" "asserted rd i"
    and "\<forall>j. i < j \<and> j < numSensors \<longrightarrow> \<not> asserted rd j"
  shows "\<exists>s'. loop rd s = Inr s' \<and> length' s' = lengths ! i \<and> hue s' = hues ! i
           \<and> length' (before_draw rd s) = lengths ! i \<and> hue (before_draw rd s) = hues ! i"
  using loop_fields [OF assms(1), of rd] read_sensors_highest [OF assms(2,3,4), of s]
  by (auto simp: before_draw_bar)

theorem highest_sensor_wins_witness:
  "pos_ok initial \<and> 4 < numSensors
   \<and> asserted (pins_low [3, 6]) 1 \<and> asserted (pins_low [3, 6]) 4
   \<and> \<not> asserted (pins_low [3, 6]) 5
   \<and> (\<exists>s'. loop (pins_low [3, 6]) initial = Inr s' \<and> length' s' = 6 \<and> hue s' = 120)"
proof -
  have a: "asserted (pins_low [3, 6]) 1" "asserted (pins_low [3, 6]) 4"
    "\<not> asserted (pins_low [3, 6]) 5"
    by (simp_all add: asserted_pins_low sensorPins_def)
  have "\<forall>j. 4 < j \<and> j < numSensors \<longrightarrow> \<not> asserted (pins_low [3, 6]) j"
  proof (intro allI impI)
    fix j :: nat
    assume "4 < j \<and> j < numSensors"
    then have "j = 5" by (simp add: numSensors_def)
    then show "\<not> asserted (pins_low [3, 6]) j" using a(3) by simp
  qed
  from highest_sensor_wins [OF pos_ok_initial _ a(2) this] a
  show ?thesis
    by (auto simp: pos_ok_initial numSensors_def lengths_def hues_def)
qed

text \<open>
  C8. For every contiguous run of frames in which no sensor is asserted, started in a
  state of the data model, the brightness at the end of each frame is non-negative and
  not above the brightness at the end of the frame before (nor above the brightness
  before the run), and it is 0 from the 21st frame of the run on.
\<close>

theorem fade_monotone:
  assumes "pos_ok s" "0 \<le> brightness s" "brightness s \<le> 255"
    and "list_all (\<lambda>rd. \<not> active rd) rds" "\<not> active rd"
  shows "\<exists>s1 s2. run rds s = Inr s1 \<and> loop rd s1 = Inr s2
     \<and> 0 \<le> brightness s1 \<and> brightness s1 \<le> brightness s
     \<and> 0 \<le> brightness s2 \<and> brightness s2 \<le> brightness s1
     \<and> (21 \<le> length rds \<longrightarrow> brightness s1 = 0)"
proof -
  from run_idle [OF assms(1,4)] obtain s1 where
    s1: "run rds s = Inr s1" "pos_ok s1" "brightness s1 = (fade ^^ length rds) (brightness s)"
    by blast
  from loop_fields [OF s1(2), of rd] assms(5) obtain s2 where
    s2: "loop rd s1 = Inr s2" "brightness s2 = fade (brightness s1)" by auto
  have r1: "0 \<le> brightness s1 \<and> brightness s1 \<le> brightness s"
    using fade_funpow_range [OF assms(2,3)] by (simp add: s1(3))
  then have "0 \<le> brightness s1" "brightness s1 \<le> 255" using assms(3) by simp_all
  then have r2: "0 \<le> brightness s2 \<and> brightness s2 \<le> brightness s1"
    unfolding s2(2) by (rule fade_range)
  have "21 \<le> length rds \<longrightarrow> brightness s1 = 0"
    using fade_dark [OF assms(2,3)] by (simp add: s1(3))
  with s1(1) s2(1) r1 r2 show ?thesis by blast
qed

theorem fade_monotone_witness:
  "pos_ok (initial\<lparr> brightness := 255 \<rparr>)
   \<and> list_all (\<lambda>rd. \<not> active rd) (replicate 21 no_sensor) \<and> \<not> active no_sensor
   \<and> (\<exists>s1 s2. run (replicate 21 no_sensor) (initial\<lparr> brightness := 255 \<rparr>) = Inr s1
          \<and> loop no_sensor s1 = Inr s2 \<and> brightness s1 = 0 \<and> brightness s2 = 0)"
proof -
  have ok: "pos_ok (initial\<lparr> brightness := 255 \<rparr>)"
    using pos_ok_initial by (simp add: pos_ok_def)
  from fade_monotone [OF ok _ _ list_all_idle_replicate not_active_no_sensor, of 21]
  show ?thesis
    by (auto simp add: ok list_all_idle_replicate not_active_no_sensor)
qed

text \<open>
  C9. For every call \<open>drawLightbar(pos16, length, hue)\<close> with \<open>0 \<le> pos16 < NUM_LEDS * 16\<close>
  and \<open>0 \<le> length < NUM_LEDS\<close>, every write to the \<open>leds\<close> array uses an index \<open>i\<close> with
  \<open>0 \<le> i < NUM_LEDS\<close>: the call executes \<open>length + 1\<close> statements on the array, each
  inside it, and finishes without an out-of-bounds access.
\<close>

theorem drawLightbar_in_bounds:
  assumes "0 \<le> p" "p < NUM_LEDS * 16" "0 \<le> len" "len < NUM_LEDS" "length buf = nat NUM_LEDS"
  shows "length (drawLightbar_slots p len h) = nat (len + 1)
    \<and> (\<forall>w \<in> set (drawLightbar_slots p len h). 0 \<le> fst w \<and> fst w < NUM_LEDS)
    \<and> (\<exists>buf'. drawLightbar buf p len h = Inr buf' \<and> length buf' = nat NUM_LEDS)"
proof -
  have "length (drawLightbar_slots p len h) = nat (len + 1)"
    by (simp add: drawLightbar_slots_def Let_def length_lightbar_slots)
  moreover have "\<forall>w \<in> set (drawLightbar_slots p len h). 0 \<le> fst w \<and> fst w < NUM_LEDS"
    using drawLightbar_slots_index [OF assms(1,2)] by blast
  moreover have "\<exists>buf'. drawLightbar buf p len h = Inr buf' \<and> length buf' = nat NUM_LEDS"
    using drawLightbar_ok [OF assms(1,2,5), of len h] by (simp add: assms(5))
  ultimately show ?thesis by blast
qed

theorem drawLightbar_in_bounds_witness:
  "(0::int) \<le> 191 \<and> 191 < NUM_LEDS * 16 \<and> (0::int) \<le> 7 \<and> 7 < NUM_LEDS
   \<and> length (replicate 12 ([] :: CHSV list)) = nat NUM_LEDS
   \<and> length (drawLightbar_slots 191 7 160) = 8
   \<and> list_all (\<lambda>w. 0 \<le> fst w \<and> fst w < NUM_LEDS) (drawLightbar_slots 191 7 160)
   \<and> (\<exists>buf'. drawLightbar (replicate 12 []) 191 7 160 = Inr buf' \<and> length buf' = nat NUM_LEDS)"
  using drawLightbar_in_bounds [of 191 7 "replicate 12 []" 160]
  by (simp add: NUM_LEDS_def list_all_iff)

text \<open>
  C10. For every frame in which no sensor reads asserted, \<open>length\<close> and \<open>hue\<close> are left
  unchanged, and the bar of that frame is drawn with them: the fading bar keeps the
  length and colour of the last selected target.
\<close>

theorem idle_frame_keeps_bar:
  assumes "pos_ok s" "\<not> active rd"
  shows "\<exists>s'. loop rd s = Inr s' \<and> length' s' = length' s \<and> hue s' = hue s
           \<and> drawLightbar (replicate (nat NUM_LEDS) []) (pos16 s) (length' s) (hue s)
               = Inr (leds s')"
proof -
  from loop_Inr [OF assms(1), of rd] obtain buf where
    d: "drawLightbar (replicate (nat NUM_LEDS) []) (pos16 (before_draw rd s))
          (length' (before_draw rd s)) (hue (before_draw rd s)) = Inr buf"
    and l: "loop rd s = Inr (advance ((before_draw rd s)\<lparr> leds := buf \<rparr>))" by blast
  have b: "pos16 (before_draw rd s) = pos16 s" "length' (before_draw rd s) = length' s"
    "hue (before_draw rd s) = hue s"
    using assms(2) by (simp_all add: before_draw_pos16 before_draw_bar read_sensors_idle)
  show ?thesis
    using d by (simp add: l b advance_fields)
qed

theorem idle_frame_keeps_bar_witness:
  "pos_ok initial \<and> \<not> active no_sensor
   \<and> (\<exists>s'. loop no_sensor initial = Inr s' \<and> length' s' = 1 \<and> hue s' = 20
          \<and> drawLightbar (replicate (nat NUM_LEDS) []) 0 1 20 = Inr (leds s'))"
  using idle_frame_keeps_bar [OF pos_ok_initial not_active_no_sensor]
  by (simp add: pos_ok_initial not_active_no_sensor initial_fields)

end
